theory Spec2Isabelle
  imports Main "HOL-Library.Word"
begin

section \<open>Flat accounting of the chunk cache (package accnt)\<close>

text \<open>
  The accountant \<open>FlatAccnt\<close> keeps, per metric, the sizes of the cached chunks, the
  total number of bytes used, and a least-recently-used index of chunks. Its event loop
  applies one event at a time and then evicts until the bytes used are no more than the
  configured maximum. Go's \<open>uint32\<close> and \<open>uint64\<close> are words: \<open>+\<close> and \<open>-\<close> wrap.
\<close>

type_synonym uint32 = "32 word"
type_synonym uint64 = "64 word"

subsection \<open>Data\<close>

text \<open>
  Modelled from the spec: the declaration of \<open>EvictTarget\<close> is not in the source at
  hand, which builds its values from the fields \<open>Metric\<close> and \<open>Ts\<close>. It is the ChunkId
  of the specification, a pair of a metric key (a string) and a chunk timestamp (a
  \<open>u32\<close>), compared structurally; it is sent on the evict queue and kept in the LRU.
\<close>

record EvictTarget =
  Metric :: string
  Ts :: uint32

text \<open>
  \<open>FlatAccntMet\<close>: per-metric accounting. The source's field \<open>total\<close> is named
  \<open>total_m\<close> here; \<open>chunks\<close> is the Go map from chunk timestamp to size.
\<close>

record FlatAccntMet =
  total_m :: uint64
  chunks :: "uint32 \<rightharpoonup> uint64"

text \<open>
  \<open>FlatAccnt\<close>: the fields of the struct (\<open>metrics\<close>, \<open>maxSize\<close>, \<open>lru\<close>, \<open>evictQ\<close>),
  and, threaded through the same record, the package-level gauges and counters the
  accountant writes.

  \<^item> \<open>lru\<close> lists the chunk identifiers from the least recently used (head) to the most
    recently used (last).
  \<^item> \<open>evictQ\<close> lists every target sent on the channel so far, oldest first. The
    channel's capacity, and the blocking of a send on a full channel, are not modelled.
  \<^item> \<open>replies\<close> lists the values sent on the reply channels of the get-total events.
    The event queue \<open>eventQ\<close> is the list of events given to \<open>eventLoop\<close> below.

  Modelled from the spec: the declarations of \<open>cacheSizeUsed\<close>, \<open>cacheSizeMax\<close>,
  \<open>cacheChunkAdd\<close>, \<open>cacheChunkEvict\<close>, \<open>cacheMetricAdd\<close> and \<open>cacheMetricEvict\<close> are
  not in the source at hand. The specification has \<open>used\<close> and \<open>max\<close> as \<open>u64\<close> and the
  counters as atomic integers. The source reads and writes the two gauges as \<open>uint64\<close>
  (\<open>Peek\<close>, \<open>AddUint64\<close>, \<open>DecUint64\<close>, \<open>SetUint64\<close>): they are 64-bit words, so that
  adding and subtracting wrap. On the counters it only calls \<open>Inc\<close>: they are natural
  numbers.
\<close>

record FlatAccnt =
  metrics :: "string \<rightharpoonup> FlatAccntMet"
  maxSize :: uint64
  lru :: "EvictTarget list"
  evictQ :: "EvictTarget list"
  replies :: "uint64 list"
  cacheSizeUsed :: uint64
  cacheSizeMax :: uint64
  cacheChunkAdd :: nat
  cacheChunkEvict :: nat
  cacheMetricAdd :: nat
  cacheMetricEvict :: nat

text \<open>
  \<open>FlatAccntEvent\<close>: the event type with its payload (\<open>AddPayload\<close>, \<open>HitPayload\<close>,
  \<open>DelMetPayload\<close>; the reply channel of \<open>GetTotalPayload\<close> is the field \<open>replies\<close>).
\<close>

datatype FlatAccntEvent =
    evnt_hit_chnk string uint32
  | evnt_add_chnk string uint32 uint64
  | evnt_del_met string
  | evnt_get_total
  | evnt_stop
  | evnt_reset

subsection \<open>The LRU\<close>

text \<open>
  Modelled from the spec: the type \<open>LRU\<close> with \<open>NewLRU\<close>, \<open>touch\<close>, \<open>del\<close>, \<open>pop\<close> and
  \<open>reset\<close> is not in the source at hand. The Recency Index of the specification:
  \<open>touch\<close> moves the identifier to the most-recently-used end, or inserts it there;
  \<open>del\<close> removes the identifier if present; \<open>pop\<close> removes and returns the least
  recently used identifier, or nothing when the index is empty; \<open>reset\<close> discards all
  entries.
\<close>

definition NewLRU :: "EvictTarget list" where
  "NewLRU = []"

definition lru_touch :: "EvictTarget \<Rightarrow> EvictTarget list \<Rightarrow> EvictTarget list" where
  "lru_touch t l = removeAll t l @ [t]"

definition lru_del :: "EvictTarget \<Rightarrow> EvictTarget list \<Rightarrow> EvictTarget list" where
  "lru_del t l = removeAll t l"

definition lru_pop :: "EvictTarget list \<Rightarrow> EvictTarget option \<times> EvictTarget list" where
  "lru_pop l = (case l of [] \<Rightarrow> (None, []) | e # es \<Rightarrow> (Some e, es))"

definition lru_reset :: "EvictTarget list \<Rightarrow> EvictTarget list" where
  "lru_reset l = []"

subsection \<open>The accountant's operations\<close>

text \<open>
  \<open>NewFlatAccnt\<close>: empty ledger and LRU, the given limit. The gauges and counters hold
  the zero values of a fresh process; \<open>cacheSizeMax\<close> is set to the limit.
\<close>

definition NewFlatAccnt :: "uint64 \<Rightarrow> FlatAccnt" where
  "NewFlatAccnt mx =
     \<lparr>metrics = Map.empty, maxSize = mx, lru = NewLRU, evictQ = [], replies = [],
      cacheSizeUsed = 0, cacheSizeMax = mx, cacheChunkAdd = 0, cacheChunkEvict = 0,
      cacheMetricAdd = 0, cacheMetricEvict = 0\<rparr>"

definition getTotal :: "FlatAccnt \<Rightarrow> FlatAccnt" where
  "getTotal a = a\<lparr>replies := replies a @ [cacheSizeUsed a]\<rparr>"

text \<open>
  \<open>delMet\<close>: nothing for an unknown metric; otherwise every chunk of the metric is
  deleted from the LRU, the metric's total is subtracted from the bytes used and the
  metric is removed. Go ranges over the map in no fixed order; the model takes the
  timestamps in ascending order (lemma \<open>fold_lru_del\<close> below: the order is irrelevant).
\<close>

definition delMet :: "string \<Rightarrow> FlatAccnt \<Rightarrow> FlatAccnt" where
  "delMet metric a =
     (case metrics a metric of
        None \<Rightarrow> a
      | Some met \<Rightarrow>
          a\<lparr>lru := fold (\<lambda>ts. lru_del \<lparr>Metric = metric, Ts = ts\<rparr>)
                        (sorted_list_of_set (dom (chunks met))) (lru a),
            cacheSizeUsed := cacheSizeUsed a - total_m met,
            metrics := (metrics a)(metric := None)\<rparr>)"

text \<open>
  \<open>add\<close>: the metric's entry is created on demand (counted by \<open>cacheMetricAdd\<close>); a
  chunk that is already there is left alone; otherwise the chunk is recorded and its
  size added to the metric's total and to the bytes used.
\<close>

definition add :: "string \<Rightarrow> uint32 \<Rightarrow> uint64 \<Rightarrow> FlatAccnt \<Rightarrow> FlatAccnt" where
  "add metric ts sz a =
     (let (met, a1) =
            (case metrics a metric of
               None \<Rightarrow>
                 (\<lparr>total_m = 0, chunks = Map.empty\<rparr>,
                  a\<lparr>metrics := (metrics a)(metric \<mapsto> \<lparr>total_m = 0, chunks = Map.empty\<rparr>),
                    cacheMetricAdd := cacheMetricAdd a + 1\<rparr>)
             | Some met \<Rightarrow> (met, a))
      in case chunks met ts of
           Some _ \<Rightarrow> a1
         | None \<Rightarrow>
             a1\<lparr>metrics := (metrics a1)(metric \<mapsto>
                    met\<lparr>chunks := (chunks met)(ts \<mapsto> sz), total_m := total_m met + sz\<rparr>),
                 cacheSizeUsed := cacheSizeUsed a1 + sz\<rparr>)"

text \<open>
  The size read by \<open>met.chunks[ts]\<close>: a Go map yields the zero value for a missing key.
\<close>

definition chunk_size :: "FlatAccntMet \<Rightarrow> uint32 \<Rightarrow> uint64" where
  "chunk_size met ts = (case chunks met ts of None \<Rightarrow> 0 | Some sz \<Rightarrow> sz)"

text \<open>
  The targets of an eviction: the timestamps of the metric's chunks that are not after
  the popped target's (Go ranges over the map in no fixed order), then sorted by
  \<open>sort.Sort(Uint32Asc(targets))\<close>.

  Modelled from the spec: the declaration of \<open>Uint32Asc\<close> is not in the source at hand;
  by the specification the timestamps are sorted ascending.
\<close>

definition evict_targets :: "FlatAccntMet \<Rightarrow> uint32 \<Rightarrow> uint32 list" where
  "evict_targets met t = sorted_list_of_set {ts \<in> dom (chunks met). ts \<le> t}"

text \<open>
  One round of the loop over the targets. \<open>met\<close> is a pointer into \<open>a.metrics\<close>: the
  model carries the entry beside the accountant and \<open>evict\<close> stores it back.
\<close>

definition evict_chunk :: "string \<Rightarrow> uint32 \<Rightarrow> FlatAccntMet \<times> FlatAccnt \<Rightarrow> FlatAccntMet \<times> FlatAccnt" where
  "evict_chunk metric ts = (\<lambda>(met, a).
     (let sz = chunk_size met ts in
        (met\<lparr>total_m := total_m met - sz, chunks := (chunks met)(ts := None)\<rparr>,
         a\<lparr>cacheSizeUsed := cacheSizeUsed a - sz,
           cacheChunkEvict := cacheChunkEvict a + 1,
           evictQ := evictQ a @ [\<lparr>Metric = metric, Ts = ts\<rparr>]\<rparr>)))"

text \<open>
  \<open>evict\<close>: pop the least recently used target; return when there is none, or when its
  metric is unknown; otherwise evict the targets in ascending order and remove the
  metric when its total is \<open>\<le> 0\<close>.
\<close>

definition evict :: "FlatAccnt \<Rightarrow> FlatAccnt" where
  "evict a =
     (case lru_pop (lru a) of
        (None, _) \<Rightarrow> a
      | (Some target, l) \<Rightarrow>
          (let a1 = a\<lparr>lru := l\<rparr> in
             case metrics a1 (Metric target) of
               None \<Rightarrow> a1
             | Some met \<Rightarrow>
                 (let (met', a2) =
                        fold (evict_chunk (Metric target)) (evict_targets met (Ts target)) (met, a1)
                  in if total_m met' \<le> 0
                     then a2\<lparr>cacheMetricEvict := cacheMetricEvict a2 + 1,
                             metrics := (metrics a2)(Metric target := None)\<rparr>
                     else a2\<lparr>metrics := (metrics a2)(Metric target \<mapsto> met')\<rparr>)))"

text \<open>The switch of the event loop (the stop event leaves the loop and is handled there).\<close>

fun handle_event :: "FlatAccntEvent \<Rightarrow> FlatAccnt \<Rightarrow> FlatAccnt" where
  "handle_event (evnt_add_chnk metric ts sz) a =
     (let a1 = add metric ts sz a;
          a2 = a1\<lparr>cacheChunkAdd := cacheChunkAdd a1 + 1\<rparr>
      in a2\<lparr>lru := lru_touch \<lparr>Metric = metric, Ts = ts\<rparr> (lru a2)\<rparr>)"
| "handle_event (evnt_hit_chnk metric ts) a =
     a\<lparr>lru := lru_touch \<lparr>Metric = metric, Ts = ts\<rparr> (lru a)\<rparr>"
| "handle_event (evnt_del_met metric) a = delMet metric a"
| "handle_event evnt_get_total a = getTotal a"
| "handle_event evnt_stop a = a"
| "handle_event evnt_reset a =
     a\<lparr>metrics := Map.empty, lru := lru_reset (lru a), cacheSizeUsed := 0\<rparr>"

text \<open>
  \<open>for cacheSizeUsed.Peek() > a.maxSize { a.evict() }\<close>: the loop may run forever, so
  not returning is the value \<open>None\<close>.
\<close>

partial_function (option) drain :: "FlatAccnt \<Rightarrow> FlatAccnt option" where
  "drain a = (if maxSize a < cacheSizeUsed a then drain (evict a) else Some a)"

text \<open>
  \<open>eventLoop\<close> on the events received from the event queue, in order. The result is the
  state in which the loop waits for the next event (or has returned, on the stop event).
\<close>

fun eventLoop :: "FlatAccntEvent list \<Rightarrow> FlatAccnt \<Rightarrow> FlatAccnt option" where
  "eventLoop [] a = Some a"
| "eventLoop (evnt_stop # evs) a = Some a"
| "eventLoop (ev # evs) a =
     (case drain (handle_event ev a) of
        None \<Rightarrow> None
      | Some a' \<Rightarrow> eventLoop evs a')"

subsection \<open>Notions used to state the properties\<close>

text \<open>The bytes freed by an eviction with target timestamp \<open>t\<close> in the metric \<open>met\<close>.\<close>

definition evicted_bytes :: "FlatAccntMet \<Rightarrow> uint32 \<Rightarrow> uint64" where
  "evicted_bytes met t = sum_list (map (chunk_size met) (evict_targets met t))"

text \<open>
  An accountant in the middle of an event: metric \<open>a\<close> holds chunks 10, 20 and 30, the
  limit of 50 bytes is exceeded and the least recently used chunk is the one at 20.
\<close>

definition accnt_over_limit :: FlatAccnt where
  "accnt_over_limit =
     \<lparr>metrics = [''a'' \<mapsto> \<lparr>total_m = 60, chunks = [10 \<mapsto> 10, 20 \<mapsto> 20, 30 \<mapsto> 30]\<rparr>],
      maxSize = 50,
      lru = [\<lparr>Metric = ''a'', Ts = 20\<rparr>, \<lparr>Metric = ''a'', Ts = 10\<rparr>, \<lparr>Metric = ''a'', Ts = 30\<rparr>],
      evictQ = [], replies = [],
      cacheSizeUsed = 60, cacheSizeMax = 50, cacheChunkAdd = 3, cacheChunkEvict = 0,
      cacheMetricAdd = 1, cacheMetricEvict = 0\<rparr>"

text \<open>
  An accountant between events, with a limit of 100 bytes: metric \<open>b\<close> holds chunk 1 of
  10 bytes.
\<close>

definition accnt_one_chunk :: FlatAccnt where
  "accnt_one_chunk =
     \<lparr>metrics = [''b'' \<mapsto> \<lparr>total_m = 10, chunks = [1 \<mapsto> 10]\<rparr>],
      maxSize = 100,
      lru = [\<lparr>Metric = ''b'', Ts = 1\<rparr>],
      evictQ = [], replies = [],
      cacheSizeUsed = 10, cacheSizeMax = 100, cacheChunkAdd = 1, cacheChunkEvict = 0,
      cacheMetricAdd = 1, cacheMetricEvict = 0\<rparr>"

text \<open>The ledger holds the chunk \<open>e\<close>.\<close>

definition ledger_has :: "FlatAccnt \<Rightarrow> EvictTarget \<Rightarrow> bool" where
  "ledger_has a e =
     (case metrics a (Metric e) of None \<Rightarrow> False | Some met \<Rightarrow> chunks met (Ts e) \<noteq> None)"

text \<open>Every chunk of the ledger is in the LRU.\<close>

definition ledger_in_lru :: "FlatAccnt \<Rightarrow> bool" where
  "ledger_in_lru a \<longleftrightarrow> (\<forall>e. ledger_has a e \<longrightarrow> e \<in> set (lru a))"

text \<open>
  The accounting is consistent: each metric's total is the sum of its chunks' sizes and
  the bytes used are the sum of the metrics' totals (sums of words: modulo \<open>2 ^ 64\<close>).
\<close>

definition chunk_sum :: "FlatAccntMet \<Rightarrow> uint64" where
  "chunk_sum met = (\<Sum>ts \<in> dom (chunks met). chunk_size met ts)"

definition metric_total :: "FlatAccnt \<Rightarrow> string \<Rightarrow> uint64" where
  "metric_total a m = (case metrics a m of None \<Rightarrow> 0 | Some met \<Rightarrow> total_m met)"

definition ledger_sum :: "FlatAccnt \<Rightarrow> uint64" where
  "ledger_sum a = (\<Sum>m \<in> dom (metrics a). metric_total a m)"

definition totals_ok :: "FlatAccnt \<Rightarrow> bool" where
  "totals_ok a \<longleftrightarrow>
     finite (dom (metrics a)) \<and>
     (\<forall>m met. metrics a m = Some met \<longrightarrow> total_m met = chunk_sum met) \<and>
     cacheSizeUsed a = ledger_sum a"

text \<open>
  The states the event loop of an accountant made by \<open>NewFlatAccnt mx\<close> goes through:
  an event is taken from the queue only when the eviction loop has ended, and \<open>evict\<close>
  is called only while the bytes used exceed the limit.
\<close>

inductive reachable :: "uint64 \<Rightarrow> FlatAccnt \<Rightarrow> bool" for mx :: uint64 where
  reach_new: "reachable mx (NewFlatAccnt mx)"
| reach_event: "reachable mx a \<Longrightarrow> cacheSizeUsed a \<le> maxSize a \<Longrightarrow> ev \<noteq> evnt_stop \<Longrightarrow>
     reachable mx (handle_event ev a)"
| reach_evict: "reachable mx a \<Longrightarrow> maxSize a < cacheSizeUsed a \<Longrightarrow> reachable mx (evict a)"

text \<open>The events the loop processes: those before the first stop event.\<close>

definition processed :: "FlatAccntEvent list \<Rightarrow> FlatAccntEvent list" where
  "processed evs = takeWhile (\<lambda>ev. ev \<noteq> evnt_stop) evs"

fun is_add_chnk :: "FlatAccntEvent \<Rightarrow> bool" where
  "is_add_chnk (evnt_add_chnk metric ts sz) = True"
| "is_add_chnk ev = False"

section \<open>Properties\<close>

subsection \<open>The LRU deletions of \<open>delMet\<close>\<close>

lemma removeAll_target:
  "removeAll \<lparr>Metric = m, Ts = k\<rparr> l = filter (\<lambda>e. \<not> (Metric e = m \<and> Ts e = k)) l"
  by (induction l) auto

lemma fold_lru_del:
  "fold (\<lambda>ts. lru_del \<lparr>Metric = m, Ts = ts\<rparr>) ks l =
     filter (\<lambda>e. \<not> (Metric e = m \<and> Ts e \<in> set ks)) l"
proof (induction ks arbitrary: l)
  case Nil
  show ?case by simp
next
  case (Cons k ks)
  have "fold (\<lambda>ts. lru_del \<lparr>Metric = m, Ts = ts\<rparr>) (k # ks) l =
        filter (\<lambda>e. \<not> (Metric e = m \<and> Ts e \<in> set ks))
          (filter (\<lambda>e. \<not> (Metric e = m \<and> Ts e = k)) l)"
    by (simp add: Cons.IH lru_del_def removeAll_target)
  also have "\<dots> = filter (\<lambda>e. \<not> (Metric e = m \<and> Ts e \<in> set (k # ks))) l"
    by (auto intro: filter_cong)
  finally show ?case .
qed

subsection \<open>The eviction loop in closed form\<close>

lemma chunk_size_del:
  "ts \<noteq> v \<Longrightarrow> chunk_size (met\<lparr>total_m := t, chunks := (chunks met)(v := None)\<rparr>) ts = chunk_size met ts"
  by (simp add: chunk_size_def)

lemma restrict_del:
  "((c :: uint32 \<rightharpoonup> uint64)(v := None)) |` (- set V) = c |` (- set (v # V))"
  by (rule ext) (simp add: restrict_map_def)

lemma fold_evict_chunk:
  "distinct V \<Longrightarrow>
   fold (evict_chunk m) V (met, a) =
     (met\<lparr>total_m := total_m met - sum_list (map (chunk_size met) V),
          chunks := chunks met |` (- set V)\<rparr>,
      a\<lparr>cacheSizeUsed := cacheSizeUsed a - sum_list (map (chunk_size met) V),
        cacheChunkEvict := cacheChunkEvict a + length V,
        evictQ := evictQ a @ map (\<lambda>ts. \<lparr>Metric = m, Ts = ts\<rparr>) V\<rparr>)"
proof (induction V arbitrary: met a)
  case Nil
  show ?case by simp
next
  case (Cons v V)
  let ?met1 = "met\<lparr>total_m := total_m met - chunk_size met v, chunks := (chunks met)(v := None)\<rparr>"
  let ?a1 = "a\<lparr>cacheSizeUsed := cacheSizeUsed a - chunk_size met v,
                cacheChunkEvict := cacheChunkEvict a + 1,
                evictQ := evictQ a @ [\<lparr>Metric = m, Ts = v\<rparr>]\<rparr>"
  have step: "evict_chunk m v (met, a) = (?met1, ?a1)"
    by (simp add: evict_chunk_def Let_def)
  have dist: "distinct V" and notin: "v \<notin> set V"
    using Cons.prems by simp_all
  have sizes: "map (chunk_size ?met1) V = map (chunk_size met) V"
    using notin by (intro map_cong refl chunk_size_del) auto
  have "fold (evict_chunk m) (v # V) (met, a) = fold (evict_chunk m) V (?met1, ?a1)"
    by (simp add: step)
  also have "\<dots> =
     (?met1\<lparr>total_m := total_m ?met1 - sum_list (map (chunk_size ?met1) V),
          chunks := chunks ?met1 |` (- set V)\<rparr>,
      ?a1\<lparr>cacheSizeUsed := cacheSizeUsed ?a1 - sum_list (map (chunk_size ?met1) V),
        cacheChunkEvict := cacheChunkEvict ?a1 + length V,
        evictQ := evictQ ?a1 @ map (\<lambda>ts. \<lparr>Metric = m, Ts = ts\<rparr>) V\<rparr>)"
    by (rule Cons.IH [OF dist])
  also have "\<dots> =
     (met\<lparr>total_m := total_m met - sum_list (map (chunk_size met) (v # V)),
          chunks := chunks met |` (- set (v # V))\<rparr>,
      a\<lparr>cacheSizeUsed := cacheSizeUsed a - sum_list (map (chunk_size met) (v # V)),
        cacheChunkEvict := cacheChunkEvict a + length (v # V),
        evictQ := evictQ a @ map (\<lambda>ts. \<lparr>Metric = m, Ts = ts\<rparr>) (v # V)\<rparr>)"
  proof -
    have compl: "- set V - {v} = - insert v (set V)" by auto
    show ?thesis unfolding sizes using notin by (simp add: compl algebra_simps)
  qed
  finally show ?case .
qed

lemma evict_targets_set: "set (evict_targets met t) = {ts \<in> dom (chunks met). ts \<le> t}"
  by (simp add: evict_targets_def)

lemma evict_targets_sorted: "sorted_wrt (<) (evict_targets met t)"
  by (simp add: evict_targets_def)

lemma evict_targets_distinct: "distinct (evict_targets met t)"
  by (simp add: evict_targets_def)

lemma restrict_targets:
  "chunks met |` (- set (evict_targets met t)) = chunks met |` {ts. t < ts}"
  by (rule ext) (auto simp: restrict_map_def evict_targets_set not_le)

lemma met_updates:
  "(met :: FlatAccntMet)\<lparr>total_m := x, chunks := y\<rparr> = \<lparr>total_m = x, chunks = y\<rparr>"
  by (cases met) simp

lemma evict_known:
  assumes "lru a = target # l" and "metrics a (Metric target) = Some met"
  shows "evict a =
     (if total_m met - evicted_bytes met (Ts target) = 0
      then a\<lparr>lru := l,
             cacheSizeUsed := cacheSizeUsed a - evicted_bytes met (Ts target),
             cacheChunkEvict := cacheChunkEvict a + length (evict_targets met (Ts target)),
             evictQ := evictQ a @ map (\<lambda>ts. \<lparr>Metric = Metric target, Ts = ts\<rparr>) (evict_targets met (Ts target)),
             cacheMetricEvict := cacheMetricEvict a + 1,
             metrics := (metrics a)(Metric target := None)\<rparr>
      else a\<lparr>lru := l,
             cacheSizeUsed := cacheSizeUsed a - evicted_bytes met (Ts target),
             cacheChunkEvict := cacheChunkEvict a + length (evict_targets met (Ts target)),
             evictQ := evictQ a @ map (\<lambda>ts. \<lparr>Metric = Metric target, Ts = ts\<rparr>) (evict_targets met (Ts target)),
             metrics := (metrics a)(Metric target \<mapsto>
                \<lparr>total_m = total_m met - evicted_bytes met (Ts target),
                 chunks = chunks met |` {ts. Ts target < ts}\<rparr>)\<rparr>)"
  using assms
  by (simp add: evict_def lru_pop_def Let_def fold_evict_chunk [OF evict_targets_distinct]
      restrict_targets evicted_bytes_def met_updates)


subsection \<open>One eviction\<close>

lemma targets_over_limit:
  "evict_targets \<lparr>total_m = 60, chunks = [10 \<mapsto> 10, 20 \<mapsto> 20, 30 \<mapsto> 30]\<rparr> 20 = [10, 20]"
proof -
  have "{ts \<in> dom [10 \<mapsto> 10 :: uint64, 20 \<mapsto> 20, 30 \<mapsto> 30]. ts \<le> (20 :: uint32)} = {10, 20}"
    by auto
  then show ?thesis by (simp add: evict_targets_def)
qed

lemma rest_over_limit:
  "[10 \<mapsto> 10 :: uint64, 20 \<mapsto> 20, 30 \<mapsto> 30] |` {ts. (20 :: uint32) < ts} = [30 \<mapsto> 30]"
  by (rule ext) (auto simp: restrict_map_def)

text \<open>
  Claim C1. When \<open>evict\<close> pops a target whose metric is in the ledger, the chunks
  evicted are exactly the metric's chunks with a timestamp not after the target's: they
  are sent on the evict queue in ascending order of timestamp, each one's size is
  subtracted from the metric's total and from the bytes used, each is removed from the
  metric's chunks, and the metric's entry is removed exactly when its total has become
  zero.
\<close>

theorem evict_up_to_target:
  assumes "lru_pop (lru a) = (Some target, l)"
    and "metrics a (Metric target) = Some met"
  shows "sorted_wrt (<) (evict_targets met (Ts target))
    \<and> set (evict_targets met (Ts target)) = {ts. chunks met ts \<noteq> None \<and> ts \<le> Ts target}
    \<and> evictQ (evict a) =
        evictQ a @ map (\<lambda>ts. \<lparr>Metric = Metric target, Ts = ts\<rparr>) (evict_targets met (Ts target))
    \<and> cacheChunkEvict (evict a) = cacheChunkEvict a + length (evict_targets met (Ts target))
    \<and> cacheSizeUsed (evict a) = cacheSizeUsed a - evicted_bytes met (Ts target)
    \<and> metrics (evict a) (Metric target) =
        (if total_m met - evicted_bytes met (Ts target) = 0 then None
         else Some \<lparr>total_m = total_m met - evicted_bytes met (Ts target),
                    chunks = chunks met |` {ts. Ts target < ts}\<rparr>)
    \<and> lru (evict a) = l"
proof -
  from assms(1) have l: "lru a = target # l"
    by (auto simp: lru_pop_def split: list.splits)
  have "set (evict_targets met (Ts target)) = {ts. chunks met ts \<noteq> None \<and> ts \<le> Ts target}"
    by (auto simp: evict_targets_set)
  then show ?thesis
    by (simp add: evict_known [OF l assms(2)] evict_targets_sorted)
qed

theorem evict_up_to_target_witness:
  "lru_pop (lru accnt_over_limit) =
      (Some \<lparr>Metric = ''a'', Ts = 20\<rparr>, [\<lparr>Metric = ''a'', Ts = 10\<rparr>, \<lparr>Metric = ''a'', Ts = 30\<rparr>])
   \<and> metrics accnt_over_limit ''a'' =
        Some \<lparr>total_m = 60, chunks = [10 \<mapsto> 10, 20 \<mapsto> 20, 30 \<mapsto> 30]\<rparr>
   \<and> evictQ (evict accnt_over_limit) = [\<lparr>Metric = ''a'', Ts = 10\<rparr>, \<lparr>Metric = ''a'', Ts = 20\<rparr>]
   \<and> cacheSizeUsed (evict accnt_over_limit) = 30
   \<and> metrics (evict accnt_over_limit) ''a'' = Some \<lparr>total_m = 30, chunks = [30 \<mapsto> 30]\<rparr>
   \<and> lru (evict accnt_over_limit) = [\<lparr>Metric = ''a'', Ts = 10\<rparr>, \<lparr>Metric = ''a'', Ts = 30\<rparr>]"
proof -
  have pop: "lru_pop (lru accnt_over_limit) =
      (Some \<lparr>Metric = ''a'', Ts = 20\<rparr>, [\<lparr>Metric = ''a'', Ts = 10\<rparr>, \<lparr>Metric = ''a'', Ts = 30\<rparr>])"
    by (simp add: accnt_over_limit_def lru_pop_def)
  have met: "metrics accnt_over_limit (Metric \<lparr>Metric = ''a'', Ts = 20\<rparr>) =
      Some \<lparr>total_m = 60, chunks = [10 \<mapsto> 10, 20 \<mapsto> 20, 30 \<mapsto> 30]\<rparr>"
    by (simp add: accnt_over_limit_def)
  show ?thesis
    using pop met evict_up_to_target [OF pop met]
    by (simp add: evicted_bytes_def targets_over_limit rest_over_limit chunk_size_def
        accnt_over_limit_def)
qed

subsection \<open>Consistency of the totals\<close>

lemma chunk_sum_empty: "chunk_sum \<lparr>total_m = x, chunks = Map.empty\<rparr> = 0"
  by (simp add: chunk_sum_def)

lemma chunk_sum_insert:
  assumes "chunks met ts = None"
  shows "chunk_sum (met\<lparr>chunks := (chunks met)(ts \<mapsto> sz), total_m := x\<rparr>) = chunk_sum met + sz"
proof -
  have notin: "ts \<notin> dom (chunks met)"
    using assms by (simp add: domIff)
  have "chunk_sum (met\<lparr>chunks := (chunks met)(ts \<mapsto> sz), total_m := x\<rparr>) =
        (\<Sum>k \<in> insert ts (dom (chunks met)). if k = ts then sz else chunk_size met k)"
    unfolding chunk_sum_def by (rule sum.cong) (auto simp: chunk_size_def)
  also have "\<dots> = sz + (\<Sum>k \<in> dom (chunks met). if k = ts then sz else chunk_size met k)"
    using notin by (simp add: sum.insert)
  also have "(\<Sum>k \<in> dom (chunks met). if k = ts then sz else chunk_size met k) = chunk_sum met"
    unfolding chunk_sum_def using notin by (intro sum.cong) auto
  finally show ?thesis by (simp only: add.commute)
qed

lemma evicted_bytes_sum:
  "evicted_bytes met t = (\<Sum>ts \<in> {ts \<in> dom (chunks met). ts \<le> t}. chunk_size met ts)"
  by (simp add: evicted_bytes_def evict_targets_def sum_list_distinct_conv_sum_set)

lemma chunk_sum_restrict:
  "chunk_sum \<lparr>total_m = x, chunks = chunks met |` {ts. t < ts}\<rparr> = chunk_sum met - evicted_bytes met t"
proof -
  let ?D = "dom (chunks met)"
  have split: "?D = {ts \<in> ?D. ts \<le> t} \<union> {ts \<in> ?D. t < ts}"
    by auto
  have "chunk_sum met =
        (\<Sum>ts \<in> {ts \<in> ?D. ts \<le> t}. chunk_size met ts) + (\<Sum>ts \<in> {ts \<in> ?D. t < ts}. chunk_size met ts)"
    unfolding chunk_sum_def by (subst split, rule sum.union_disjoint) auto
  moreover have "chunk_sum \<lparr>total_m = x, chunks = chunks met |` {ts. t < ts}\<rparr> =
        (\<Sum>ts \<in> {ts \<in> ?D. t < ts}. chunk_size met ts)"
    unfolding chunk_sum_def
    by (rule sum.cong) (auto simp: chunk_size_def restrict_map_def split: if_splits)
  ultimately show ?thesis
    by (simp add: evicted_bytes_sum)
qed

lemma ledger_sum_update:
  assumes "finite (dom (metrics a))" and "metrics b = (metrics a)(m \<mapsto> met)"
  shows "ledger_sum b = ledger_sum a - metric_total a m + total_m met"
proof -
  let ?D = "dom (metrics a)"
  have rest: "(\<Sum>k \<in> ?D - {m}. metric_total b k) = (\<Sum>k \<in> ?D - {m}. metric_total a k)"
    by (rule sum.cong) (simp_all add: metric_total_def assms(2))
  have "ledger_sum b = (\<Sum>k \<in> insert m ?D. metric_total b k)"
    by (simp add: ledger_sum_def assms(2))
  also have "\<dots> = metric_total b m + (\<Sum>k \<in> ?D - {m}. metric_total b k)"
    using assms(1) by (rule sum.insert_remove)
  also have "metric_total b m = total_m met"
    by (simp add: metric_total_def assms(2))
  finally have b: "ledger_sum b = total_m met + (\<Sum>k \<in> ?D - {m}. metric_total a k)"
    by (simp add: rest)
  have "ledger_sum a = metric_total a m + (\<Sum>k \<in> ?D - {m}. metric_total a k)"
  proof (cases "m \<in> ?D")
    case True
    then show ?thesis unfolding ledger_sum_def using assms(1) by (simp add: sum.remove)
  next
    case False
    then have "metric_total a m = 0" by (simp add: metric_total_def domIff)
    with False show ?thesis by (simp add: ledger_sum_def)
  qed
  with b show ?thesis by simp
qed

lemma ledger_sum_delete:
  assumes "finite (dom (metrics a))" and "metrics b = (metrics a)(m := None)"
  shows "ledger_sum b = ledger_sum a - metric_total a m"
proof -
  let ?D = "dom (metrics a)"
  have rest: "(\<Sum>k \<in> ?D - {m}. metric_total b k) = (\<Sum>k \<in> ?D - {m}. metric_total a k)"
    by (rule sum.cong) (simp_all add: metric_total_def assms(2))
  have b: "ledger_sum b = (\<Sum>k \<in> ?D - {m}. metric_total a k)"
    by (simp add: ledger_sum_def assms(2) rest [symmetric])
  have "ledger_sum a = metric_total a m + (\<Sum>k \<in> ?D - {m}. metric_total a k)"
  proof (cases "m \<in> ?D")
    case True
    then show ?thesis unfolding ledger_sum_def using assms(1) by (simp add: sum.remove)
  next
    case False
    then have "metric_total a m = 0" by (simp add: metric_total_def domIff)
    with False show ?thesis by (simp add: ledger_sum_def)
  qed
  with b show ?thesis by simp
qed

subsection \<open>The cases of \<open>add\<close>\<close>

lemma add_new_metric:
  "metrics a m = None \<Longrightarrow>
   add m t s a =
     a\<lparr>metrics := (metrics a)(m \<mapsto> \<lparr>total_m = s, chunks = [t \<mapsto> s]\<rparr>),
       cacheMetricAdd := cacheMetricAdd a + 1,
       cacheSizeUsed := cacheSizeUsed a + s\<rparr>"
  by (simp add: add_def)

lemma add_known_chunk:
  "metrics a m = Some met \<Longrightarrow> chunks met t = Some x \<Longrightarrow> add m t s a = a"
  by (simp add: add_def)

lemma add_new_chunk:
  "metrics a m = Some met \<Longrightarrow> chunks met t = None \<Longrightarrow>
   add m t s a =
     a\<lparr>metrics := (metrics a)(m \<mapsto>
          met\<lparr>chunks := (chunks met)(t \<mapsto> s), total_m := total_m met + s\<rparr>),
       cacheSizeUsed := cacheSizeUsed a + s\<rparr>"
  by (simp add: add_def)

lemma delMet_known:
  "metrics a m = Some met \<Longrightarrow>
   delMet m a =
     a\<lparr>lru := filter (\<lambda>e. \<not> (Metric e = m \<and> chunks met (Ts e) \<noteq> None)) (lru a),
       cacheSizeUsed := cacheSizeUsed a - total_m met,
       metrics := (metrics a)(m := None)\<rparr>"
  by (simp add: delMet_def fold_lru_del domIff)

lemma delMet_unknown: "metrics a m = None \<Longrightarrow> delMet m a = a"
  by (simp add: delMet_def)

lemma evict_empty: "lru a = [] \<Longrightarrow> evict a = a"
  by (simp add: evict_def lru_pop_def)

lemma evict_unknown:
  "lru a = target # l \<Longrightarrow> metrics a (Metric target) = None \<Longrightarrow> evict a = a\<lparr>lru := l\<rparr>"
  by (simp add: evict_def lru_pop_def)

subsection \<open>The totals stay consistent\<close>

lemma totals_ok_frame:
  "metrics b = metrics a \<Longrightarrow> cacheSizeUsed b = cacheSizeUsed a \<Longrightarrow> totals_ok b = totals_ok a"
  by (simp add: totals_ok_def ledger_sum_def metric_total_def)

lemma totals_ok_new: "totals_ok (NewFlatAccnt mx)"
  by (simp add: totals_ok_def NewFlatAccnt_def ledger_sum_def)

lemma totals_ok_update:
  assumes ok: "totals_ok a"
    and b: "metrics b = (metrics a)(m \<mapsto> met)"
    and met: "total_m met = chunk_sum met"
    and used: "cacheSizeUsed b = cacheSizeUsed a - metric_total a m + total_m met"
  shows "totals_ok b"
proof -
  have fin: "finite (dom (metrics a))"
    using ok by (simp add: totals_ok_def)
  have "ledger_sum b = ledger_sum a - metric_total a m + total_m met"
    by (rule ledger_sum_update [OF fin b])
  moreover have "cacheSizeUsed a = ledger_sum a"
    using ok by (simp add: totals_ok_def)
  moreover have "\<forall>k x. metrics b k = Some x \<longrightarrow> total_m x = chunk_sum x"
    using ok met by (auto simp: totals_ok_def b)
  moreover have "finite (dom (metrics b))"
    using fin by (simp add: b)
  ultimately show ?thesis
    by (simp add: totals_ok_def used)
qed

lemma totals_ok_delete:
  assumes ok: "totals_ok a"
    and b: "metrics b = (metrics a)(m := None)"
    and used: "cacheSizeUsed b = cacheSizeUsed a - metric_total a m"
  shows "totals_ok b"
proof -
  have fin: "finite (dom (metrics a))"
    using ok by (simp add: totals_ok_def)
  have "ledger_sum b = ledger_sum a - metric_total a m"
    by (rule ledger_sum_delete [OF fin b])
  moreover have "cacheSizeUsed a = ledger_sum a"
    using ok by (simp add: totals_ok_def)
  moreover have "\<forall>k x. metrics b k = Some x \<longrightarrow> total_m x = chunk_sum x"
    using ok by (auto simp: totals_ok_def b split: if_splits)
  moreover have "finite (dom (metrics b))"
    using fin by (simp add: b)
  ultimately show ?thesis
    by (simp add: totals_ok_def used)
qed

lemma totals_ok_add:
  assumes ok: "totals_ok a"
  shows "totals_ok (add m t s a)"
proof (cases "metrics a m")
  case None
  have "chunk_sum \<lparr>total_m = s, chunks = [t \<mapsto> s]\<rparr> = s"
    by (simp add: chunk_sum_def chunk_size_def)
  then show ?thesis
    by (intro totals_ok_update [OF ok, where m = m and met = "\<lparr>total_m = s, chunks = [t \<mapsto> s]\<rparr>"])
      (simp_all add: add_new_metric [OF None] metric_total_def None)
next
  case (Some met)
  show ?thesis
  proof (cases "chunks met t")
    case None
    have tot: "total_m met = chunk_sum met"
      using ok Some by (simp add: totals_ok_def)
    let ?met' = "met\<lparr>chunks := (chunks met)(t \<mapsto> s), total_m := total_m met + s\<rparr>"
    have "total_m ?met' = chunk_sum ?met'"
      by (simp add: chunk_sum_insert [OF None] tot)
    then show ?thesis
      by (intro totals_ok_update [OF ok, where m = m and met = ?met'])
        (simp_all add: add_new_chunk [OF Some None] metric_total_def Some)
  next
    case (Some x)
    with \<open>metrics a m = Some met\<close> ok show ?thesis
      by (simp add: add_known_chunk)
  qed
qed

lemma totals_ok_delMet:
  assumes ok: "totals_ok a"
  shows "totals_ok (delMet m a)"
proof (cases "metrics a m")
  case None
  with ok show ?thesis by (simp add: delMet_unknown)
next
  case (Some met)
  show ?thesis
    by (rule totals_ok_delete [OF ok, where m = m])
      (simp_all add: delMet_known [OF Some] metric_total_def Some)
qed

lemma totals_ok_evict:
  assumes ok: "totals_ok a"
  shows "totals_ok (evict a)"
proof (cases "lru a")
  case Nil
  with ok show ?thesis by (simp add: evict_empty)
next
  case (Cons target l)
  show ?thesis
  proof (cases "metrics a (Metric target)")
    case None
    have "totals_ok (a\<lparr>lru := l\<rparr>) = totals_ok a"
      by (rule totals_ok_frame) simp_all
    with ok show ?thesis by (simp add: evict_unknown [OF Cons None])
  next
    case (Some met)
    have tot: "total_m met = chunk_sum met"
      using ok Some by (simp add: totals_ok_def)
    let ?E = "evicted_bytes met (Ts target)"
    show ?thesis
    proof (cases "total_m met - ?E = 0")
      case True
      then have "total_m met = ?E" by simp
      then show ?thesis
        by (intro totals_ok_delete [OF ok, where m = "Metric target"])
          (simp_all add: evict_known [OF Cons Some] True metric_total_def Some)
    next
      case False
      let ?met' = "\<lparr>total_m = total_m met - ?E, chunks = chunks met |` {ts. Ts target < ts}\<rparr>"
      have "total_m ?met' = chunk_sum ?met'"
        by (simp add: chunk_sum_restrict tot)
      then show ?thesis
        using False
        by (intro totals_ok_update [OF ok, where m = "Metric target" and met = ?met'])
          (simp_all add: evict_known [OF Cons Some] metric_total_def Some)
    qed
  qed
qed

lemma totals_ok_handle_event:
  assumes ok: "totals_ok a"
  shows "totals_ok (handle_event ev a)"
proof (cases ev)
  case (evnt_hit_chnk m t)
  have "totals_ok (handle_event ev a) = totals_ok a"
    by (rule totals_ok_frame) (simp_all add: evnt_hit_chnk)
  with ok show ?thesis by simp
next
  case (evnt_add_chnk m t s)
  have "totals_ok (handle_event ev a) = totals_ok (add m t s a)"
    by (rule totals_ok_frame) (simp_all add: evnt_add_chnk Let_def)
  with ok show ?thesis by (simp add: totals_ok_add)
next
  case (evnt_del_met m)
  with ok show ?thesis by (simp add: totals_ok_delMet)
next
  case evnt_get_total
  have "totals_ok (handle_event ev a) = totals_ok a"
    by (rule totals_ok_frame) (simp_all add: evnt_get_total getTotal_def)
  with ok show ?thesis by simp
next
  case evnt_stop
  with ok show ?thesis by simp
next
  case evnt_reset
  then show ?thesis
    by (simp add: totals_ok_def ledger_sum_def)
qed

subsection \<open>Every chunk of the ledger stays in the LRU\<close>

lemma ledger_has_frame: "metrics b = metrics a \<Longrightarrow> ledger_has b e = ledger_has a e"
  by (simp add: ledger_has_def)

lemma ledger_has_add:
  "ledger_has (add m t s a) e \<longleftrightarrow> ledger_has a e \<or> e = \<lparr>Metric = m, Ts = t\<rparr>"
proof (cases "metrics a m")
  case None
  then show ?thesis
    by (cases e) (auto simp: add_new_metric ledger_has_def)
next
  case (Some met)
  show ?thesis
  proof (cases "chunks met t")
    case None
    with Some show ?thesis
      by (cases e) (auto simp: add_new_chunk ledger_has_def)
  next
    case (Some x)
    with \<open>metrics a m = Some met\<close> show ?thesis
      by (cases e) (auto simp: add_known_chunk ledger_has_def)
  qed
qed

lemma lru_add: "lru (add m t s a) = lru a"
  by (simp add: add_def Let_def split: option.splits)

lemma set_lru_touch: "set (lru_touch e l) = insert e (set l)"
  by (auto simp: lru_touch_def)

lemma ledger_has_delMet:
  "ledger_has (delMet m a) e \<longleftrightarrow> ledger_has a e \<and> Metric e \<noteq> m"
proof (cases "metrics a m")
  case None
  then show ?thesis
    by (auto simp: delMet_unknown ledger_has_def)
next
  case (Some met)
  then show ?thesis
    by (auto simp: delMet_known ledger_has_def)
qed

lemma lru_delMet_other: "e \<in> set (lru a) \<Longrightarrow> Metric e \<noteq> m \<Longrightarrow> e \<in> set (lru (delMet m a))"
  by (cases "metrics a m") (auto simp: delMet_unknown delMet_known)

lemma ledger_has_evict:
  assumes "ledger_has (evict a) e"
  shows "ledger_has a e \<and> (\<forall>l. lru a = e # l \<longrightarrow> False)"
proof (cases "lru a")
  case Nil
  with assms show ?thesis by (simp add: evict_empty)
next
  case (Cons target l)
  show ?thesis
  proof (cases "metrics a (Metric target)")
    case None
    from assms have "ledger_has a e"
      by (simp add: evict_unknown [OF Cons None] ledger_has_def)
    moreover from this None have "e \<noteq> target"
      by (auto simp: ledger_has_def)
    ultimately show ?thesis using Cons by auto
  next
    case (Some met)
    from assms have "ledger_has a e \<and> e \<noteq> target"
      by (auto simp: evict_known [OF Cons Some] ledger_has_def Some restrict_map_def
          split: if_splits option.splits)
    then show ?thesis using Cons by auto
  qed
qed

lemma lru_evict: "lru (evict a) = tl (lru a)"
proof (cases "lru a")
  case Nil
  then show ?thesis by (simp add: evict_empty)
next
  case (Cons target l)
  then show ?thesis
    by (cases "metrics a (Metric target)") (simp_all add: evict_unknown evict_known)
qed

lemma ledger_in_lru_new: "ledger_in_lru (NewFlatAccnt mx)"
  by (simp add: ledger_in_lru_def ledger_has_def NewFlatAccnt_def)

lemma ledger_in_lru_evict:
  assumes "ledger_in_lru a"
  shows "ledger_in_lru (evict a)"
  unfolding ledger_in_lru_def
proof (intro allI impI)
  fix e
  assume "ledger_has (evict a) e"
  then have has: "ledger_has a e" and hd: "\<forall>l. lru a = e # l \<longrightarrow> False"
    using ledger_has_evict by blast+
  from has assms have "e \<in> set (lru a)"
    by (simp add: ledger_in_lru_def)
  with hd show "e \<in> set (lru (evict a))"
    by (cases "lru a") (auto simp: lru_evict)
qed

lemma ledger_in_lru_handle_event:
  assumes "ledger_in_lru a"
  shows "ledger_in_lru (handle_event ev a)"
proof (cases ev)
  case (evnt_hit_chnk m t)
  have "\<And>e. ledger_has (handle_event ev a) e = ledger_has a e"
    by (rule ledger_has_frame) (simp add: evnt_hit_chnk)
  with assms show ?thesis
    by (simp add: ledger_in_lru_def evnt_hit_chnk set_lru_touch)
next
  case (evnt_add_chnk m t s)
  have "\<And>e. ledger_has (handle_event ev a) e = ledger_has (add m t s a) e"
    by (rule ledger_has_frame) (simp add: evnt_add_chnk Let_def)
  with assms show ?thesis
    by (auto simp: ledger_in_lru_def evnt_add_chnk set_lru_touch ledger_has_add lru_add Let_def)
next
  case (evnt_del_met m)
  with assms show ?thesis
    by (auto simp: ledger_in_lru_def ledger_has_delMet lru_delMet_other)
next
  case evnt_get_total
  have "\<And>e. ledger_has (handle_event ev a) e = ledger_has a e"
    by (rule ledger_has_frame) (simp add: evnt_get_total getTotal_def)
  with assms show ?thesis
    by (simp add: ledger_in_lru_def evnt_get_total getTotal_def)
next
  case evnt_stop
  with assms show ?thesis by simp
next
  case evnt_reset
  then show ?thesis
    by (simp add: ledger_in_lru_def ledger_has_def)
qed

subsection \<open>What every reachable state satisfies\<close>

lemma maxSize_evict: "maxSize (evict a) = maxSize a"
proof (cases "lru a")
  case Nil
  then show ?thesis by (simp add: evict_empty)
next
  case (Cons target l)
  then show ?thesis
    by (cases "metrics a (Metric target)") (simp_all add: evict_unknown evict_known)
qed

lemma maxSize_handle_event: "maxSize (handle_event ev a) = maxSize a"
  by (cases ev)
    (simp_all add: Let_def add_def delMet_def getTotal_def split: option.splits)

lemma reachable_inv:
  "reachable mx a \<Longrightarrow> totals_ok a \<and> ledger_in_lru a \<and> maxSize a = mx"
proof (induction rule: reachable.induct)
  case reach_new
  show ?case
    by (simp add: totals_ok_new ledger_in_lru_new) (simp add: NewFlatAccnt_def)
next
  case (reach_event a ev)
  then show ?case
    by (simp add: totals_ok_handle_event ledger_in_lru_handle_event maxSize_handle_event)
next
  case (reach_evict a)
  then show ?case
    by (simp add: totals_ok_evict ledger_in_lru_evict maxSize_evict)
qed

text \<open>Bytes in use mean a chunk in the ledger, hence an entry in the LRU.\<close>

lemma used_lru_nonempty:
  assumes ok: "totals_ok a" and sub: "ledger_in_lru a" and used: "cacheSizeUsed a \<noteq> 0"
  shows "lru a \<noteq> []"
proof -
  have "ledger_sum a \<noteq> 0"
    using ok used by (simp add: totals_ok_def)
  then obtain m where m: "m \<in> dom (metrics a)" and nz: "metric_total a m \<noteq> 0"
    unfolding ledger_sum_def by (meson sum.neutral)
  from m obtain met where met: "metrics a m = Some met"
    by auto
  with nz have "total_m met \<noteq> 0"
    by (simp add: metric_total_def)
  with ok met have "chunk_sum met \<noteq> 0"
    by (simp add: totals_ok_def)
  then obtain ts where "ts \<in> dom (chunks met)"
    unfolding chunk_sum_def by (meson sum.neutral)
  with met have "ledger_has a \<lparr>Metric = m, Ts = ts\<rparr>"
    by (auto simp: ledger_has_def)
  with sub have "\<lparr>Metric = m, Ts = ts\<rparr> \<in> set (lru a)"
    by (simp add: ledger_in_lru_def)
  then show ?thesis by auto
qed

subsection \<open>The eviction loop\<close>

lemma drain_rule:
  assumes "drain a = Some a'"
    and "P a"
    and step: "\<And>x. P x \<Longrightarrow> maxSize x < cacheSizeUsed x \<Longrightarrow> P (evict x)"
  shows "P a' \<and> cacheSizeUsed a' \<le> maxSize a'"
proof -
  have "P a \<longrightarrow> P a' \<and> cacheSizeUsed a' \<le> maxSize a'"
  proof (rule drain.raw_induct
      [where P = "\<lambda>x y. P x \<longrightarrow> P y \<and> cacheSizeUsed y \<le> maxSize y", OF _ assms(1)])
    fix d x y
    assume IH: "\<And>x y. d x = Some y \<Longrightarrow> P x \<longrightarrow> P y \<and> cacheSizeUsed y \<le> maxSize y"
      and eq: "(if maxSize x < cacheSizeUsed x then d (evict x) else Some x) = Some y"
    show "P x \<longrightarrow> P y \<and> cacheSizeUsed y \<le> maxSize y"
    proof (cases "maxSize x < cacheSizeUsed x")
      case True
      with eq have "d (evict x) = Some y" by simp
      from IH [OF this] True show ?thesis by (auto intro: step)
    next
      case False
      with eq show ?thesis by (auto simp: not_less)
    qed
  qed
  with assms(2) show ?thesis by simp
qed

text \<open>
  The loop itself does not stop on an empty LRU: \<open>evict\<close> returns, and the condition of
  the loop is tested again. From a state with an empty LRU and more bytes used than the
  limit (no reachable state is one, see \<open>over_limit_lru_nonempty\<close>) it runs forever.
\<close>

lemma drain_stuck:
  assumes "lru a = []" and "maxSize a < cacheSizeUsed a"
  shows "drain a = None"
proof (rule ccontr)
  assume "drain a \<noteq> None"
  then obtain y where y: "drain a = Some y" by auto
  have "\<not> (lru a = [] \<and> maxSize a < cacheSizeUsed a)"
  proof (rule drain.raw_induct
      [where P = "\<lambda>x y. \<not> (lru x = [] \<and> maxSize x < cacheSizeUsed x)", OF _ y])
    fix d x y
    assume IH: "\<And>x y. d x = Some y \<Longrightarrow> \<not> (lru x = [] \<and> maxSize x < cacheSizeUsed x)"
      and eq: "(if maxSize x < cacheSizeUsed x then d (evict x) else Some x) = Some (y :: FlatAccnt)"
    show "\<not> (lru x = [] \<and> maxSize x < cacheSizeUsed x)"
    proof
      assume stuck: "lru x = [] \<and> maxSize x < cacheSizeUsed x"
      then have "evict x = x" by (simp add: evict_empty)
      with eq stuck have "d x = Some y" by simp
      from IH [OF this] stuck show False by simp
    qed
  qed
  with assms show False by simp
qed

lemma over_limit_lru_nonempty:
  assumes "reachable mx a" and "maxSize a < cacheSizeUsed a"
  shows "lru a \<noteq> []"
proof -
  from assms(2) have "cacheSizeUsed a \<noteq> 0"
    by (metis word_not_simps(1))
  with reachable_inv [OF assms(1)] show ?thesis
    by (simp add: used_lru_nonempty)
qed

lemma drain_reachable:
  "reachable mx a \<Longrightarrow>
   \<exists>a'. drain a = Some a' \<and> reachable mx a' \<and> cacheSizeUsed a' \<le> maxSize a'"
proof (induction "length (lru a)" arbitrary: a rule: less_induct)
  case less
  show ?case
  proof (cases "maxSize a < cacheSizeUsed a")
    case True
    have "lru a \<noteq> []"
      using less.prems True by (rule over_limit_lru_nonempty)
    then have shorter: "length (lru (evict a)) < length (lru a)"
      by (simp add: lru_evict)
    have "reachable mx (evict a)"
      using less.prems True by (rule reach_evict)
    from less.hyps [OF shorter this] obtain a' where
      "drain (evict a) = Some a'" "reachable mx a'" "cacheSizeUsed a' \<le> maxSize a'"
      by blast
    moreover have "drain a = drain (evict a)"
      using True by (subst drain.simps) simp
    ultimately show ?thesis by simp
  next
    case False
    then have "drain a = Some a"
      by (subst drain.simps) simp
    with False less.prems show ?thesis by (simp add: not_less)
  qed
qed

subsection \<open>The event loop\<close>

lemma eventLoop_step:
  "ev \<noteq> evnt_stop \<Longrightarrow>
   eventLoop (ev # evs) a =
     (case drain (handle_event ev a) of None \<Rightarrow> None | Some a' \<Rightarrow> eventLoop evs a')"
  by (cases ev) simp_all

lemma eventLoop_reachable:
  "reachable mx a \<Longrightarrow> cacheSizeUsed a \<le> maxSize a \<Longrightarrow>
   \<exists>a'. eventLoop evs a = Some a' \<and> reachable mx a' \<and> cacheSizeUsed a' \<le> maxSize a'"
proof (induction evs arbitrary: a)
  case Nil
  then show ?case by simp
next
  case (Cons ev evs)
  show ?case
  proof (cases "ev = evnt_stop")
    case True
    with Cons.prems show ?thesis by simp
  next
    case False
    have "reachable mx (handle_event ev a)"
      using Cons.prems False by (rule reach_event)
    from drain_reachable [OF this] obtain a1 where
      a1: "drain (handle_event ev a) = Some a1" "reachable mx a1" "cacheSizeUsed a1 \<le> maxSize a1"
      by blast
    from Cons.IH [OF a1(2,3)] a1(1) False show ?thesis
      by (simp add: eventLoop_step)
  qed
qed

lemma reachable_new_quiet:
  "reachable mx (NewFlatAccnt mx) \<and> cacheSizeUsed (NewFlatAccnt mx) \<le> maxSize (NewFlatAccnt mx)"
  by (simp add: reach_new) (simp add: NewFlatAccnt_def)

lemma eventLoop_new:
  "\<exists>a. eventLoop evs (NewFlatAccnt mx) = Some a \<and> reachable mx a \<and> cacheSizeUsed a \<le> maxSize a"
  using reachable_new_quiet eventLoop_reachable by blast

subsection \<open>Evaluation on concrete states\<close>

lemma drain_over: "maxSize a < cacheSizeUsed a \<Longrightarrow> drain a = drain (evict a)"
  by (subst drain.simps) simp

lemma drain_done: "cacheSizeUsed a \<le> maxSize a \<Longrightarrow> drain a = Some a"
  using leD by (subst drain.simps) auto

lemma evict_targets_none: "evict_targets \<lparr>total_m = x, chunks = Map.empty\<rparr> t = []"
  by (simp add: evict_targets_def)

lemma evict_targets_some:
  assumes "c k = None"
  shows "evict_targets \<lparr>total_m = x, chunks = c(k \<mapsto> v)\<rparr> t =
     (if k \<le> t then insort k (evict_targets \<lparr>total_m = x, chunks = c\<rparr> t)
      else evict_targets \<lparr>total_m = x, chunks = c\<rparr> t)"
proof -
  have notin: "k \<notin> {ts \<in> dom c. ts \<le> t}"
    using assms by (simp add: domIff)
  show ?thesis
  proof (cases "k \<le> t")
    case True
    then have "{ts \<in> dom (c(k \<mapsto> v)). ts \<le> t} = insert k {ts \<in> dom c. ts \<le> t}"
      by auto
    with True notin show ?thesis
      by (simp add: evict_targets_def)
  next
    case False
    then have "{ts \<in> dom (c(k \<mapsto> v)). ts \<le> t} = {ts \<in> dom c. ts \<le> t}"
      by auto
    with False show ?thesis
      by (simp add: evict_targets_def)
  qed
qed

lemmas eval_simps =
  NewFlatAccnt_def NewLRU_def lru_touch_def lru_del_def lru_pop_def lru_reset_def
  add_def delMet_def getTotal_def evict_def evict_chunk_def chunk_size_def Let_def
  drain_over drain_done evict_targets_none evict_targets_some word_le_nat_alt word_less_nat_alt

subsection \<open>Termination of the eviction loop\<close>

text \<open>
  Claim C9. The eviction loop ends in every state the accountant can reach: \<open>evict\<close>
  returns early when the LRU is empty and when the popped target's metric is unknown,
  and every round of the loop removes one entry of the LRU.
\<close>

theorem drain_terminates:
  assumes "reachable mx a"
  shows "(\<exists>a'. drain a = Some a' \<and> cacheSizeUsed a' \<le> maxSize a')
    \<and> (maxSize a < cacheSizeUsed a \<longrightarrow> length (lru (evict a)) < length (lru a))
    \<and> (lru a = [] \<longrightarrow> evict a = a)
    \<and> (\<forall>target l. lru a = target # l \<and> metrics a (Metric target) = None \<longrightarrow>
          evict a = a\<lparr>lru := l\<rparr>)"
proof -
  have "\<exists>a'. drain a = Some a' \<and> cacheSizeUsed a' \<le> maxSize a'"
    using drain_reachable [OF assms] by blast
  moreover have "length (lru (evict a)) < length (lru a)" if "maxSize a < cacheSizeUsed a"
    using over_limit_lru_nonempty [OF assms that] by (simp add: lru_evict)
  ultimately show ?thesis
    by (simp add: evict_empty evict_unknown)
qed

theorem drain_terminates_witness:
  "reachable 5 (handle_event (evnt_add_chnk ''a'' 1 10) (NewFlatAccnt 5))
   \<and> maxSize (handle_event (evnt_add_chnk ''a'' 1 10) (NewFlatAccnt 5))
       < cacheSizeUsed (handle_event (evnt_add_chnk ''a'' 1 10) (NewFlatAccnt 5))
   \<and> (\<exists>a'. drain (handle_event (evnt_add_chnk ''a'' 1 10) (NewFlatAccnt 5)) = Some a'
          \<and> cacheSizeUsed a' \<le> maxSize a')
   \<and> length (lru (evict (handle_event (evnt_add_chnk ''a'' 1 10) (NewFlatAccnt 5))))
       < length (lru (handle_event (evnt_add_chnk ''a'' 1 10) (NewFlatAccnt 5)))"
proof -
  let ?a = "handle_event (evnt_add_chnk ''a'' 1 10) (NewFlatAccnt 5)"
  have quiet: "cacheSizeUsed (NewFlatAccnt 5) \<le> maxSize (NewFlatAccnt 5)"
    by (simp add: NewFlatAccnt_def)
  have r: "reachable 5 ?a"
    by (rule reach_event [OF reach_new quiet]) simp
  have over: "maxSize ?a < cacheSizeUsed ?a"
    by (simp add: NewFlatAccnt_def add_def Let_def)
  from drain_terminates [OF r] r over show ?thesis
    by blast
qed

subsection \<open>The limit after the eviction loop\<close>

text \<open>
  Claim C2. For every sequence of events processed from the initial state, with any
  limit, the loop reaches the state after the last event's eviction loop, and there the
  bytes used are at most the limit or the LRU is empty (and: at most the limit or the
  ledger is empty).
\<close>

theorem used_within_limit:
  "\<exists>a. eventLoop evs (NewFlatAccnt mx) = Some a \<and> maxSize a = mx
     \<and> (cacheSizeUsed a \<le> maxSize a \<or> lru a = [])
     \<and> (cacheSizeUsed a \<le> maxSize a \<or> metrics a = Map.empty)"
proof -
  obtain a where "eventLoop evs (NewFlatAccnt mx) = Some a" "reachable mx a"
    "cacheSizeUsed a \<le> maxSize a"
    using eventLoop_new by blast
  moreover from this have "maxSize a = mx"
    by (simp add: reachable_inv)
  ultimately show ?thesis by simp
qed

subsection \<open>A limit of zero\<close>

text \<open>
  Claim C3 says that a limit of zero disables the budget, so that nothing is ever evicted.
  It fails: with the limit 0, the first chunk added is evicted at once.
\<close>

theorem zero_limit_evicts:
  "map_option evictQ (eventLoop [evnt_add_chnk ''a'' 1 10] (NewFlatAccnt 0))
     = Some [\<lparr>Metric = ''a'', Ts = 1\<rparr>]
   \<and> map_option metrics (eventLoop [evnt_add_chnk ''a'' 1 10] (NewFlatAccnt 0)) = Some Map.empty"
  by (simp add: eval_simps)

text \<open>
  Claim C3, amended. With a limit of zero the budget is zero bytes: after every event the
  eviction loop has run until no byte is in use.
\<close>

theorem zero_limit_drains_all:
  "\<exists>a. eventLoop evs (NewFlatAccnt 0) = Some a \<and> cacheSizeUsed a = 0"
proof -
  obtain a where a: "eventLoop evs (NewFlatAccnt 0) = Some a" "reachable 0 a"
    "cacheSizeUsed a \<le> maxSize a"
    using eventLoop_new by blast
  from a(2) have "maxSize a = 0"
    by (simp add: reachable_inv)
  with a show ?thesis by simp
qed

subsection \<open>The LRU and the ledger\<close>

text \<open>
  Claim C10. In every state reachable from the initial state, every chunk of the ledger
  is in the LRU: the two differ only by entries of the LRU that the ledger does not have.
\<close>

theorem ledger_subset_lru:
  "reachable mx a \<Longrightarrow> ledger_has a e \<Longrightarrow> e \<in> set (lru a)"
  using reachable_inv [of mx a] by (simp add: ledger_in_lru_def)

theorem ledger_subset_lru_witness:
  "reachable 100 (handle_event (evnt_add_chnk ''a'' 1 10) (NewFlatAccnt 100))
   \<and> ledger_has (handle_event (evnt_add_chnk ''a'' 1 10) (NewFlatAccnt 100)) \<lparr>Metric = ''a'', Ts = 1\<rparr>
   \<and> \<lparr>Metric = ''a'', Ts = 1\<rparr> \<in> set (lru (handle_event (evnt_add_chnk ''a'' 1 10) (NewFlatAccnt 100)))"
proof -
  let ?a = "handle_event (evnt_add_chnk ''a'' 1 10) (NewFlatAccnt 100)"
  have quiet: "cacheSizeUsed (NewFlatAccnt 100) \<le> maxSize (NewFlatAccnt 100)"
    by (simp add: NewFlatAccnt_def)
  have r: "reachable 100 ?a"
    by (rule reach_event [OF reach_new quiet]) simp
  have h: "ledger_has ?a \<lparr>Metric = ''a'', Ts = 1\<rparr>"
    by (simp add: ledger_has_def NewFlatAccnt_def add_def Let_def)
  from ledger_subset_lru [OF r h] r h show ?thesis
    by simp
qed

text \<open>
  Claim C4 says that, between events, the LRU and the ledger hold the same chunks. It
  fails: a hit on a chunk the ledger does not know puts the chunk into the LRU only.
\<close>

theorem hit_unknown_chunk_lru_only:
  "map_option lru (eventLoop [evnt_hit_chnk ''a'' 1] (NewFlatAccnt 100))
     = Some [\<lparr>Metric = ''a'', Ts = 1\<rparr>]
   \<and> map_option metrics (eventLoop [evnt_hit_chnk ''a'' 1] (NewFlatAccnt 100)) = Some Map.empty"
  by (simp add: eval_simps)

text \<open>
  Claim C4, amended. Between events, every chunk of the ledger is in the LRU; a chunk of
  the LRU need not be in the ledger.
\<close>

theorem ledger_in_lru_between_events:
  "\<exists>a. eventLoop evs (NewFlatAccnt mx) = Some a \<and> (\<forall>e. ledger_has a e \<longrightarrow> e \<in> set (lru a))"
proof -
  obtain a where "eventLoop evs (NewFlatAccnt mx) = Some a" "reachable mx a"
    using eventLoop_new by blast
  moreover from this have "ledger_in_lru a"
    by (simp add: reachable_inv)
  ultimately show ?thesis
    by (simp add: ledger_in_lru_def)
qed

theorem ledger_in_lru_between_events_witness:
  "\<exists>a. eventLoop [evnt_add_chnk ''a'' 1 10] (NewFlatAccnt 100) = Some a
     \<and> ledger_has a \<lparr>Metric = ''a'', Ts = 1\<rparr>
     \<and> \<lparr>Metric = ''a'', Ts = 1\<rparr> \<in> set (lru a)"
proof -
  obtain a where a: "eventLoop [evnt_add_chnk ''a'' 1 10] (NewFlatAccnt 100) = Some a"
    and sub: "\<forall>e. ledger_has a e \<longrightarrow> e \<in> set (lru a)"
    using ledger_in_lru_between_events [of "[evnt_add_chnk ''a'' 1 10]" 100] by blast
  from a have "ledger_has a \<lparr>Metric = ''a'', Ts = 1\<rparr>"
    by (auto simp: eval_simps ledger_has_def)
  with a sub show ?thesis by blast
qed

text \<open>
  Claim C5 says that after an eviction no evicted chunk is left in the LRU. The code
  deletes none but the popped target: with a limit of 25 bytes, after chunks 1 and 2 of
  metric \<open>a\<close> are added, chunk 1 is hit and a chunk of metric \<open>b\<close> is added, the eviction
  pops chunk 2 of \<open>a\<close>, evicts chunks 1 and 2, and chunk 1 stays in the LRU.
\<close>

theorem evicted_chunk_stays_in_lru:
  "map_option evictQ (eventLoop
      [evnt_add_chnk ''a'' 1 10, evnt_add_chnk ''a'' 2 10, evnt_hit_chnk ''a'' 1,
       evnt_add_chnk ''b'' 1 10] (NewFlatAccnt 25))
     = Some [\<lparr>Metric = ''a'', Ts = 1\<rparr>, \<lparr>Metric = ''a'', Ts = 2\<rparr>]
   \<and> map_option lru (eventLoop
      [evnt_add_chnk ''a'' 1 10, evnt_add_chnk ''a'' 2 10, evnt_hit_chnk ''a'' 1,
       evnt_add_chnk ''b'' 1 10] (NewFlatAccnt 25))
     = Some [\<lparr>Metric = ''a'', Ts = 1\<rparr>, \<lparr>Metric = ''b'', Ts = 1\<rparr>]"
  by (simp add: eval_simps)

subsection \<open>The counter of added chunks\<close>

lemma cacheChunkAdd_evict: "cacheChunkAdd (evict a) = cacheChunkAdd a"
proof (cases "lru a")
  case Nil
  then show ?thesis by (simp add: evict_empty)
next
  case (Cons target l)
  then show ?thesis
    by (cases "metrics a (Metric target)") (simp_all add: evict_unknown evict_known)
qed

lemma cacheChunkAdd_handle_event:
  "cacheChunkAdd (handle_event ev a) = cacheChunkAdd a + (if is_add_chnk ev then 1 else 0)"
  by (cases ev)
    (simp_all add: Let_def add_def delMet_def getTotal_def split: option.splits)

lemma cacheChunkAdd_drain:
  assumes "drain a = Some a'"
  shows "cacheChunkAdd a' = cacheChunkAdd a"
  using drain_rule [OF assms, where P = "\<lambda>x. cacheChunkAdd x = cacheChunkAdd a"]
  by (simp add: cacheChunkAdd_evict)

lemma cacheChunkAdd_eventLoop:
  "reachable mx a \<Longrightarrow> cacheSizeUsed a \<le> maxSize a \<Longrightarrow>
   \<exists>a'. eventLoop evs a = Some a' \<and>
        cacheChunkAdd a' = cacheChunkAdd a + length (filter is_add_chnk (processed evs))"
proof (induction evs arbitrary: a)
  case Nil
  then show ?case by (simp add: processed_def)
next
  case (Cons ev evs)
  show ?case
  proof (cases "ev = evnt_stop")
    case True
    then show ?thesis by (simp add: processed_def)
  next
    case False
    have "reachable mx (handle_event ev a)"
      using Cons.prems False by (rule reach_event)
    from drain_reachable [OF this] obtain a1 where
      a1: "drain (handle_event ev a) = Some a1" "reachable mx a1" "cacheSizeUsed a1 \<le> maxSize a1"
      by blast
    from Cons.IH [OF a1(2,3)] obtain a' where
      a': "eventLoop evs a1 = Some a'"
      "cacheChunkAdd a' = cacheChunkAdd a1 + length (filter is_add_chnk (processed evs))"
      by blast
    have "cacheChunkAdd a1 = cacheChunkAdd a + (if is_add_chnk ev then 1 else 0)"
      using cacheChunkAdd_drain [OF a1(1)] by (simp add: cacheChunkAdd_handle_event)
    with a' a1(1) False show ?thesis
      by (simp add: eventLoop_step processed_def)
  qed
qed

text \<open>
  Claim C6 says that the counter of added chunks is not incremented by an add event for
  a chunk the ledger already has. It fails: the event loop increments the counter after
  every add event.
\<close>

theorem chunk_add_counted_twice:
  "map_option cacheChunkAdd
     (eventLoop [evnt_add_chnk ''a'' 1 10, evnt_add_chnk ''a'' 1 10] (NewFlatAccnt 100)) = Some 2
   \<and> map_option cacheSizeUsed
     (eventLoop [evnt_add_chnk ''a'' 1 10, evnt_add_chnk ''a'' 1 10] (NewFlatAccnt 100)) = Some 10"
  by (simp add: eval_simps)

text \<open>
  Claim C6, amended. The counter of added chunks is incremented exactly once for every
  add event the loop processes, whether the ledger already has the chunk or not, and by
  nothing else.
\<close>

theorem chunk_add_counts_events:
  "\<exists>a. eventLoop evs (NewFlatAccnt mx) = Some a
     \<and> cacheChunkAdd a = length (filter is_add_chnk (processed evs))"
proof -
  have "cacheChunkAdd (NewFlatAccnt mx) = 0"
    by (simp add: NewFlatAccnt_def)
  with cacheChunkAdd_eventLoop [of mx "NewFlatAccnt mx" evs] reachable_new_quiet [of mx]
  show ?thesis by simp
qed

subsection \<open>Adding a chunk twice\<close>

lemma add_add: "add m t s (add m t s a) = add m t s a"
proof (cases "metrics a m")
  case None
  have "metrics (add m t s a) m = Some \<lparr>total_m = s, chunks = [t \<mapsto> s]\<rparr>"
    by (simp add: add_new_metric [OF None])
  then show ?thesis
    by (rule add_known_chunk) simp
next
  case (Some met)
  show ?thesis
  proof (cases "chunks met t")
    case None
    have "metrics (add m t s a) m =
        Some (met\<lparr>chunks := (chunks met)(t \<mapsto> s), total_m := total_m met + s\<rparr>)"
      by (simp add: add_new_chunk [OF Some None])
    then show ?thesis
      by (rule add_known_chunk) simp
  next
    case (Some x)
    with \<open>metrics a m = Some met\<close> show ?thesis
      by (simp add: add_known_chunk)
  qed
qed

lemma add_ledger_has: "ledger_has a \<lparr>Metric = m, Ts = t\<rparr> \<Longrightarrow> add m t s a = a"
  by (auto simp: ledger_has_def add_known_chunk split: option.splits)

text \<open>The chunk touched last stays last in the LRU for as long as the ledger has it.\<close>

lemma evict_keeps_last:
  assumes "ledger_has x e \<longrightarrow> (\<exists>pre. lru x = pre @ [e] \<and> e \<notin> set pre)"
  shows "ledger_has (evict x) e \<longrightarrow> (\<exists>pre. lru (evict x) = pre @ [e] \<and> e \<notin> set pre)"
proof
  assume "ledger_has (evict x) e"
  then have has: "ledger_has x e" and hd: "\<forall>l. lru x = e # l \<longrightarrow> False"
    using ledger_has_evict by blast+
  from has assms obtain pre where pre: "lru x = pre @ [e]" "e \<notin> set pre"
    by blast
  with hd obtain p pre' where "pre = p # pre'"
    by (cases pre) auto
  with pre have "lru (evict x) = pre' @ [e] \<and> e \<notin> set pre'"
    by (simp add: lru_evict)
  then show "\<exists>pre. lru (evict x) = pre @ [e] \<and> e \<notin> set pre"
    by blast
qed

lemma eventLoop_single:
  assumes "eventLoop [ev] a = Some a1" and "ev \<noteq> evnt_stop"
  shows "drain (handle_event ev a) = Some a1"
  using assms by (simp add: eventLoop_step split: option.splits)

text \<open>
  Claim C7 says that, in every state, adding a chunk twice leaves the accountant as adding
  it once does, and that the second add does not change the bytes used. It fails when
  the eviction after the first add evicts the chunk: with a limit of 10 bytes and chunk
  5 of metric \<open>a\<close> cached, adding chunk 1 evicts chunks 1 and 5 and leaves 0 bytes used;
  adding chunk 1 again puts it back, with 10 bytes used.
\<close>

theorem second_add_after_eviction:
  "map_option cacheSizeUsed (eventLoop
      [evnt_add_chnk ''a'' 5 10, evnt_add_chnk ''a'' 1 10] (NewFlatAccnt 10)) = Some 0
   \<and> map_option cacheSizeUsed (eventLoop
      [evnt_add_chnk ''a'' 5 10, evnt_add_chnk ''a'' 1 10, evnt_add_chnk ''a'' 1 10]
      (NewFlatAccnt 10)) = Some 10"
  by (simp add: eval_simps)

text \<open>
  Claim C7, amended. The ledger operation \<open>add\<close> is idempotent in every state. An add
  event is idempotent when the chunk is still in the ledger once the first event has been
  processed: processing the event again then changes nothing but the counter of added
  chunks.
\<close>

theorem add_chunk_twice:
  assumes first: "eventLoop [evnt_add_chnk m t s] a = Some a1"
    and kept: "ledger_has a1 \<lparr>Metric = m, Ts = t\<rparr>"
  shows "eventLoop [evnt_add_chnk m t s] a1 = Some (a1\<lparr>cacheChunkAdd := cacheChunkAdd a1 + 1\<rparr>)
    \<and> add m t s (add m t s a) = add m t s a"
proof -
  let ?e = "\<lparr>Metric = m, Ts = t\<rparr>"
  let ?a0 = "handle_event (evnt_add_chnk m t s) a"
  have d: "drain ?a0 = Some a1"
    using first by (rule eventLoop_single) simp
  have "lru ?a0 = removeAll ?e (lru a) @ [?e]"
    by (simp add: Let_def lru_touch_def lru_add)
  then have start: "ledger_has ?a0 ?e \<longrightarrow> (\<exists>pre. lru ?a0 = pre @ [?e] \<and> ?e \<notin> set pre)"
    by simp
  have "(ledger_has a1 ?e \<longrightarrow> (\<exists>pre. lru a1 = pre @ [?e] \<and> ?e \<notin> set pre))
      \<and> cacheSizeUsed a1 \<le> maxSize a1"
    using d start
    by (rule drain_rule
        [where P = "\<lambda>x. ledger_has x ?e \<longrightarrow> (\<exists>pre. lru x = pre @ [?e] \<and> ?e \<notin> set pre)"])
      (rule evict_keeps_last)
  with kept obtain pre where pre: "lru a1 = pre @ [?e]" "?e \<notin> set pre"
    and quiet: "cacheSizeUsed a1 \<le> maxSize a1"
    by blast
  have touch: "lru_touch ?e (lru a1) = lru a1"
    using pre by (simp add: lru_touch_def)
  have "handle_event (evnt_add_chnk m t s) a1 = a1\<lparr>cacheChunkAdd := cacheChunkAdd a1 + 1\<rparr>"
    by (simp add: add_ledger_has [OF kept] touch)
  moreover have "drain (a1\<lparr>cacheChunkAdd := cacheChunkAdd a1 + 1\<rparr>)
      = Some (a1\<lparr>cacheChunkAdd := cacheChunkAdd a1 + 1\<rparr>)"
    using quiet by (simp add: drain_done)
  ultimately show ?thesis
    by (simp add: add_add)
qed

theorem add_chunk_twice_witness:
  "\<exists>a1. eventLoop [evnt_add_chnk ''a'' 1 10] accnt_one_chunk = Some a1
     \<and> ledger_has a1 \<lparr>Metric = ''a'', Ts = 1\<rparr>
     \<and> cacheSizeUsed a1 = 20
     \<and> eventLoop [evnt_add_chnk ''a'' 1 10] a1 = Some (a1\<lparr>cacheChunkAdd := cacheChunkAdd a1 + 1\<rparr>)"
proof -
  let ?a1 = "\<lparr>metrics = [''b'' \<mapsto> \<lparr>total_m = 10, chunks = [1 \<mapsto> 10]\<rparr>,
                          ''a'' \<mapsto> \<lparr>total_m = 10, chunks = [1 \<mapsto> 10]\<rparr>],
      maxSize = 100,
      lru = [\<lparr>Metric = ''b'', Ts = 1\<rparr>, \<lparr>Metric = ''a'', Ts = 1\<rparr>],
      evictQ = [], replies = [],
      cacheSizeUsed = 20, cacheSizeMax = 100, cacheChunkAdd = 2, cacheChunkEvict = 0,
      cacheMetricAdd = 2, cacheMetricEvict = 0\<rparr>"
  have first: "eventLoop [evnt_add_chnk ''a'' 1 10] accnt_one_chunk = Some ?a1"
    by (simp add: accnt_one_chunk_def eval_simps)
  have kept: "ledger_has ?a1 \<lparr>Metric = ''a'', Ts = 1\<rparr>"
    by (simp add: ledger_has_def)
  from add_chunk_twice [OF first kept] first kept show ?thesis
    by simp
qed

subsection \<open>Adding a chunk and deleting its metric\<close>

text \<open>
  Claim C8. From a state between events in which the metric \<open>m\<close> is not in the ledger,
  processing an add event for \<open>(m, t)\<close> of size \<open>s\<close> that triggers no eviction, and then
  the deletion of \<open>m\<close>, brings the bytes used back to their value before the add, leaves
  no entry for \<open>(m, t)\<close> in the LRU and sends nothing on the evict queue.
\<close>

theorem add_then_del_metric:
  assumes absent: "metrics a m = None"
    and quiet: "cacheSizeUsed a \<le> maxSize a"
    and fits: "cacheSizeUsed a + s \<le> maxSize a"
  shows "\<exists>a'. eventLoop [evnt_add_chnk m t s, evnt_del_met m] a = Some a'
     \<and> cacheSizeUsed a' = cacheSizeUsed a
     \<and> \<lparr>Metric = m, Ts = t\<rparr> \<notin> set (lru a')
     \<and> evictQ a' = evictQ a
     \<and> metrics a' = metrics a"
proof -
  let ?e = "\<lparr>Metric = m, Ts = t\<rparr>"
  let ?met = "\<lparr>total_m = s, chunks = [t \<mapsto> s]\<rparr>"
  define a1 where "a1 = handle_event (evnt_add_chnk m t s) a"
  have a1: "metrics a1 = (metrics a)(m \<mapsto> ?met)" "cacheSizeUsed a1 = cacheSizeUsed a + s"
    "maxSize a1 = maxSize a" "evictQ a1 = evictQ a" "lru a1 = removeAll ?e (lru a) @ [?e]"
    by (simp_all add: a1_def add_new_metric [OF absent] Let_def lru_touch_def)
  have d1: "drain a1 = Some a1"
    using fits by (simp add: drain_done a1)
  define a2 where "a2 = delMet m a1"
  have known: "metrics a1 m = Some ?met"
    by (simp add: a1)
  have same: "(metrics a)(m := None) = metrics a"
    using absent by (metis fun_upd_triv)
  have a2: "cacheSizeUsed a2 = cacheSizeUsed a" "maxSize a2 = maxSize a" "evictQ a2 = evictQ a"
    "metrics a2 = metrics a" "?e \<notin> set (lru a2)"
    by (simp_all add: a2_def delMet_known [OF known] a1 same)
  have h2: "handle_event (evnt_del_met m) a1 = a2"
    by (simp add: a2_def)
  have d2: "drain a2 = Some a2"
    using quiet by (simp add: drain_done a2)
  have "eventLoop [evnt_add_chnk m t s, evnt_del_met m] a = Some a2"
    by (simp add: a1_def [symmetric] d1 h2 d2 del: handle_event.simps)
  with a2 show ?thesis
    by simp
qed

theorem add_then_del_metric_witness:
  "metrics accnt_one_chunk ''a'' = None
   \<and> cacheSizeUsed accnt_one_chunk \<le> maxSize accnt_one_chunk
   \<and> cacheSizeUsed accnt_one_chunk + 10 \<le> maxSize accnt_one_chunk
   \<and> (\<exists>a'. eventLoop [evnt_add_chnk ''a'' 1 10, evnt_del_met ''a''] accnt_one_chunk = Some a'
        \<and> cacheSizeUsed a' = 10
        \<and> \<lparr>Metric = ''a'', Ts = 1\<rparr> \<notin> set (lru a')
        \<and> evictQ a' = [])"
proof -
  have absent: "metrics accnt_one_chunk ''a'' = None"
    by (simp add: accnt_one_chunk_def)
  have quiet: "cacheSizeUsed accnt_one_chunk \<le> maxSize accnt_one_chunk"
    by (simp add: accnt_one_chunk_def)
  have fits: "cacheSizeUsed accnt_one_chunk + 10 \<le> maxSize accnt_one_chunk"
    by (simp add: accnt_one_chunk_def)
  have before: "cacheSizeUsed accnt_one_chunk = 10" "evictQ accnt_one_chunk = []"
    by (simp_all add: accnt_one_chunk_def)
  from add_then_del_metric [OF absent quiet fits, of 1] obtain a' where
    a': "eventLoop [evnt_add_chnk ''a'' 1 10, evnt_del_met ''a''] accnt_one_chunk = Some a'"
      "cacheSizeUsed a' = cacheSizeUsed accnt_one_chunk"
      "\<lparr>Metric = ''a'', Ts = 1\<rparr> \<notin> set (lru a')"
      "evictQ a' = evictQ accnt_one_chunk"
    by blast
  from a'(2,4) have "cacheSizeUsed a' = 10" "evictQ a' = []"
    by (simp_all add: before)
  with a'(1,3) absent quiet fits show ?thesis
    by blast
qed

subsection \<open>The scenarios of the specification\<close>

text \<open>
  The concrete scenarios of the specification, run on the model: a get-total event at
  the end reports the bytes used.
\<close>

lemma scenario_fill_and_evict:
  "map_option replies (eventLoop
      [evnt_add_chnk ''a'' 1 10, evnt_add_chnk ''a'' 2 10, evnt_add_chnk ''a'' 3 10,
       evnt_add_chnk ''a'' 4 10, evnt_get_total] (NewFlatAccnt 30)) = Some [30]
   \<and> map_option evictQ (eventLoop
      [evnt_add_chnk ''a'' 1 10, evnt_add_chnk ''a'' 2 10, evnt_add_chnk ''a'' 3 10,
       evnt_add_chnk ''a'' 4 10, evnt_get_total] (NewFlatAccnt 30))
     = Some [\<lparr>Metric = ''a'', Ts = 1\<rparr>]"
  by (simp add: eval_simps)

lemma scenario_batched_eviction:
  "map_option replies (eventLoop
      [evnt_add_chnk ''a'' 1 10, evnt_add_chnk ''a'' 2 10, evnt_add_chnk ''a'' 3 10,
       evnt_add_chnk ''a'' 4 10, evnt_hit_chnk ''a'' 3, evnt_add_chnk ''a'' 5 10,
       evnt_get_total] (NewFlatAccnt 40)) = Some [40]
   \<and> map_option evictQ (eventLoop
      [evnt_add_chnk ''a'' 1 10, evnt_add_chnk ''a'' 2 10, evnt_add_chnk ''a'' 3 10,
       evnt_add_chnk ''a'' 4 10, evnt_hit_chnk ''a'' 3, evnt_add_chnk ''a'' 5 10,
       evnt_get_total] (NewFlatAccnt 40))
     = Some [\<lparr>Metric = ''a'', Ts = 1\<rparr>]"
  by (simp add: eval_simps)

lemma scenario_cross_metric:
  "map_option replies (eventLoop
      [evnt_add_chnk ''a'' 1 10, evnt_add_chnk ''b'' 1 10, evnt_hit_chnk ''a'' 1,
       evnt_add_chnk ''c'' 1 10, evnt_get_total] (NewFlatAccnt 20)) = Some [20]
   \<and> map_option evictQ (eventLoop
      [evnt_add_chnk ''a'' 1 10, evnt_add_chnk ''b'' 1 10, evnt_hit_chnk ''a'' 1,
       evnt_add_chnk ''c'' 1 10, evnt_get_total] (NewFlatAccnt 20))
     = Some [\<lparr>Metric = ''b'', Ts = 1\<rparr>]"
  by (simp add: eval_simps)

lemma scenario_metric_deletion:
  "map_option replies (eventLoop
      [evnt_add_chnk ''a'' 1 10, evnt_add_chnk ''a'' 2 10, evnt_del_met ''a'',
       evnt_get_total] (NewFlatAccnt 100)) = Some [0]
   \<and> map_option lru (eventLoop
      [evnt_add_chnk ''a'' 1 10, evnt_add_chnk ''a'' 2 10, evnt_del_met ''a'',
       evnt_get_total] (NewFlatAccnt 100)) = Some []
   \<and> map_option evictQ (eventLoop
      [evnt_add_chnk ''a'' 1 10, evnt_add_chnk ''a'' 2 10, evnt_del_met ''a'',
       evnt_get_total] (NewFlatAccnt 100)) = Some []"
  by (simp add: eval_simps)

lemma scenario_reset:
  "map_option replies (eventLoop
      [evnt_add_chnk ''a'' 1 10, evnt_hit_chnk ''b'' 7, evnt_reset, evnt_get_total,
       evnt_add_chnk ''a'' 1 10, evnt_get_total] (NewFlatAccnt 100)) = Some [0, 10]
   \<and> map_option lru (eventLoop
      [evnt_add_chnk ''a'' 1 10, evnt_hit_chnk ''b'' 7, evnt_reset] (NewFlatAccnt 100)) = Some []"
  by (simp add: eval_simps)

end
